theory Spec2Isabelle
  imports Main "HOL-Library.AList"
begin

section \<open>Chunks and their out-of-band info\<close>

text \<open>
  A \<open>Chunk\<close> carries columns (opaque here: an identifier) and an optional \<open>ChunkInfo\<close>.
  Producers attach \<open>AggregatedChunkInfo {bucket_num, is_overflows}\<close>; the grouping
  transform attaches \<open>ChunksToMerge {chunks, bucket_num, is_overflows}\<close> (lines 10-15 of the
  source). \<open>NoInfo\<close> is the null info pointer, \<open>OtherInfo\<close> any other subclass of
  \<open>ChunkInfo\<close>. Bucket numbers are \<open>Int32\<close> in the source and unbounded integers here:
  the only arithmetic on them is \<open>++\<close>.
\<close>

datatype chunk = Chunk nat chunk_info
and chunk_info =
    NoInfo
  | AggregatedChunkInfo int bool
  | ChunksToMerge "chunk list" int bool
  | OtherInfo

fun getChunkInfo :: "chunk \<Rightarrow> chunk_info" where
  "getChunkInfo (Chunk cols info) = info"

fun detachColumns :: "chunk \<Rightarrow> nat" where
  "detachColumns (Chunk cols info) = cols"

datatype error = LOGICAL_ERROR string | BAD_CAST string | UNDEFINED_ACCESS | PROTOCOL_ERROR

datatype status = NeedData | PortFull | Finished | Ready | Async | Wait | ExpandPipeline

section \<open>Ports\<close>

text \<open>
  Modelled from the spec: the port classes of the pipeline runtime (\<open>InputPort\<close>,
  \<open>OutputPort\<close>) are not among the sources. Section 6 of the specification gives their
  operations: pull if available, mark needed or not needed, push, close. An input port holds
  at most one chunk; it is finished once upstream has finished it and its chunk has been
  taken. An output port can be pushed to when downstream needs data and the port is empty;
  \<open>out_stream\<close> is everything pushed through the port, oldest first.
\<close>

record input_port =
  in_finished :: bool
  in_needed :: bool
  in_data :: "chunk option"

record output_port =
  out_finished :: bool
  out_needed :: bool
  out_has_data :: bool
  out_stream :: "chunk list"

definition isFinished :: "input_port \<Rightarrow> bool" where
  "isFinished p = (in_finished p \<and> in_data p = None)"

definition hasData :: "input_port \<Rightarrow> bool" where
  "hasData p = (in_data p \<noteq> None)"

definition setNeeded :: "input_port \<Rightarrow> input_port" where
  "setNeeded p = p\<lparr>in_needed := True\<rparr>"

definition setNotNeeded :: "input_port \<Rightarrow> input_port" where
  "setNotNeeded p = p\<lparr>in_needed := False\<rparr>"

definition close_port :: "input_port \<Rightarrow> input_port" where
  "close_port p = p\<lparr>in_finished := True\<rparr>"

definition pull :: "input_port \<Rightarrow> input_port" where
  "pull p = p\<lparr>in_data := None\<rparr>"

definition canPush :: "output_port \<Rightarrow> bool" where
  "canPush p = (out_needed p \<and> \<not> out_has_data p)"

definition push :: "chunk \<Rightarrow> output_port \<Rightarrow> output_port" where
  "push c p = p\<lparr>out_has_data := True, out_stream := out_stream p @ [c]\<rparr>"

definition finish :: "output_port \<Rightarrow> output_port" where
  "finish p = p\<lparr>out_finished := True\<rparr>"

section \<open>GroupingAggregatedTransform: state\<close>

text \<open>
  The members of the class that the source file reads and writes. \<open>chunks\<close> is the
  \<open>std::map<Int32, Chunks>\<close>, kept as an association list with one pair per key
  (\<open>map_of\<close> is \<open>find\<close>, \<open>AList.update\<close> is assignment through \<open>operator[]\<close>,
  \<open>AList.delete\<close> is \<open>erase\<close>, \<open>[]\<close> is the empty map).
\<close>

record state =
  inputs :: "input_port list"
  outputs_front :: output_port
  num_inputs :: nat
  last_bucket_number :: "int list"
  read_from_input :: "bool list"
  read_from_all_inputs :: bool
  has_two_level :: bool
  all_inputs_finished :: bool
  expect_several_chunks_for_single_bucket_per_source :: bool
  current_bucket :: int
  next_bucket_to_push :: int
  chunks :: "(int \<times> chunk list) list"
  single_level_chunks :: "chunk list"
  overflow_chunks :: "chunk list"

text \<open>
  The constructor (lines 17-25): \<open>last_bucket_number\<close> is \<open>num_inputs\<close> times \<open>-1\<close>,
  \<open>read_from_input\<close> is \<open>num_inputs\<close> times \<open>false\<close>. The in-class initialisers of the
  other members are in the header, which is not among the sources; the specification
  (section 4.1) starts the release cursor at 0 and every flag at false. The flag
  \<open>expect_several_chunks_for_single_bucket_per_source\<close> is configuration and is a parameter.
\<close>

definition new_input :: input_port where
  "new_input = \<lparr>in_finished = False, in_needed = False, in_data = None\<rparr>"

definition new_output :: output_port where
  "new_output = \<lparr>out_finished = False, out_needed = False, out_has_data = False, out_stream = []\<rparr>"

definition init :: "nat \<Rightarrow> bool \<Rightarrow> state" where
  "init n several =
     \<lparr>inputs = replicate n new_input,
      outputs_front = new_output,
      num_inputs = n,
      last_bucket_number = replicate n (-1),
      read_from_input = replicate n False,
      read_from_all_inputs = False,
      has_two_level = False,
      all_inputs_finished = False,
      expect_several_chunks_for_single_bucket_per_source = several,
      current_bucket = 0,
      next_bucket_to_push = 0,
      chunks = [],
      single_level_chunks = [],
      overflow_chunks = []\<rparr>"

text \<open>
  An exception leaves the object as it was when the exception was thrown: a failing operation
  returns \<open>Inl (e, st)\<close>, the error and that state.
\<close>

type_synonym 'a result = "(error \<times> state) + 'a"

section \<open>addChunk (lines 221-244)\<close>

definition emplace_back_at :: "int \<Rightarrow> chunk \<Rightarrow> (int \<times> chunk list) list \<Rightarrow> (int \<times> chunk list) list" where
  "emplace_back_at bucket c m =
     AList.update bucket ((case map_of m bucket of None \<Rightarrow> [] | Some cs \<Rightarrow> cs) @ [c]) m"

text \<open>
  \<open>last_bucket_number[input] = bucket\<close> is an unchecked vector write; outside the vector it
  is undefined behaviour, returned here as \<open>UNDEFINED_ACCESS\<close>.
\<close>

definition addChunk :: "chunk \<Rightarrow> nat \<Rightarrow> state \<Rightarrow> state result" where
  "addChunk chunk input st =
     (case getChunkInfo chunk of
        NoInfo \<Rightarrow>
          Inl (LOGICAL_ERROR ''Chunk info was not set for chunk in GroupingAggregatedTransform.'', st)
      | AggregatedChunkInfo bucket is_overflows \<Rightarrow>
          if is_overflows then Inr (st\<lparr>overflow_chunks := overflow_chunks st @ [chunk]\<rparr>)
          else if bucket < 0 then Inr (st\<lparr>single_level_chunks := single_level_chunks st @ [chunk]\<rparr>)
          else if input < length (last_bucket_number st) then
            Inr (st\<lparr>chunks := emplace_back_at bucket chunk (chunks st),
                     has_two_level := True,
                     last_bucket_number := (last_bucket_number st)[input := bucket]\<rparr>)
          else Inl (UNDEFINED_ACCESS, st\<lparr>chunks := emplace_back_at bucket chunk (chunks st),
                                         has_two_level := True\<rparr>)
      | ChunksToMerge cs b ov \<Rightarrow>
          Inl (LOGICAL_ERROR ''Chunk should have AggregatedChunkInfo in GroupingAggregatedTransform.'', st)
      | OtherInfo \<Rightarrow>
          Inl (LOGICAL_ERROR ''Chunk should have AggregatedChunkInfo in GroupingAggregatedTransform.'', st))"

section \<open>pushData and the three tryPush functions (lines 51-104)\<close>

definition pushData :: "chunk list \<Rightarrow> int \<Rightarrow> bool \<Rightarrow> state \<Rightarrow> state" where
  "pushData cs bucket is_overflows st =
     st\<lparr>outputs_front := push (Chunk 0 (ChunksToMerge cs bucket is_overflows)) (outputs_front st)\<rparr>"

text \<open>
  The loop of \<open>tryPushTwoLevelData\<close> has no bound of its own, so the function is partial:
  \<open>None\<close> is a call that does not return. A successful push returns from inside the loop
  body, before the \<open>++next_bucket_to_push\<close> of the loop header; both \<open>continue\<close>s reach it.
\<close>

partial_function (option) tryPushTwoLevelData :: "state \<Rightarrow> (state \<times> bool) option" where
  "tryPushTwoLevelData st =
     (if next_bucket_to_push st < current_bucket st \<or> (all_inputs_finished st \<and> chunks st = [])
      then
        (case map_of (chunks st) (next_bucket_to_push st) of
           None \<Rightarrow> tryPushTwoLevelData (st\<lparr>next_bucket_to_push := next_bucket_to_push st + 1\<rparr>)
         | Some cur_chunks \<Rightarrow>
             if cur_chunks = [] then
               tryPushTwoLevelData
                 (st\<lparr>chunks := AList.delete (next_bucket_to_push st) (chunks st),
                     next_bucket_to_push := next_bucket_to_push st + 1\<rparr>)
             else
               Some ((pushData cur_chunks (current_bucket st) False st)
                       \<lparr>chunks := AList.delete (next_bucket_to_push st) (chunks st)\<rparr>, True))
      else Some (st, False))"

text \<open>
  \<open>pushData\<close> takes its \<open>Chunks\<close> by value: the two callers below pass the member itself,
  which is copied and stays as it was.
\<close>

definition tryPushSingleLevelData :: "state \<Rightarrow> state \<times> bool" where
  "tryPushSingleLevelData st =
     (if single_level_chunks st = [] then (st, False)
      else (pushData (single_level_chunks st) (-1) False st, True))"

definition tryPushOverflowData :: "state \<Rightarrow> state \<times> bool" where
  "tryPushOverflowData st =
     (if overflow_chunks st = [] then (st, False)
      else (pushData (overflow_chunks st) (-1) True st, True))"

section \<open>readFromAllInputs (lines 27-49)\<close>

text \<open>
  The loop over the input ports is a recursion over the port numbers still to visit; the
  \<open>return\<close> at a port without data leaves \<open>read_from_all_inputs\<close> as it was. The case
  distinction on \<open>in_data\<close> is \<open>hasData\<close> followed by \<open>pull\<close>: the chunk is handed
  out and the port is left empty before \<open>addChunk\<close> sees the chunk. The vectors
  \<open>inputs\<close> and \<open>read_from_input\<close> have \<open>num_inputs\<close> entries from the constructor on.
\<close>

fun readFromAllInputs_from :: "nat list \<Rightarrow> state \<Rightarrow> state result" where
  "readFromAllInputs_from [] st = Inr (st\<lparr>read_from_all_inputs := True\<rparr>)"
| "readFromAllInputs_from (i # rest) st =
     (if isFinished (inputs st ! i) then readFromAllInputs_from rest st
      else if read_from_input st ! i then readFromAllInputs_from rest st
      else
        (case in_data (inputs st ! i) of
           None \<Rightarrow> Inr (st\<lparr>inputs := (inputs st)[i := setNeeded (inputs st ! i)]\<rparr>)
         | Some chunk \<Rightarrow>
             (case addChunk chunk i
                     (st\<lparr>inputs := (inputs st)[i := pull (setNeeded (inputs st ! i))],
                         read_from_input := (read_from_input st)[i := True]\<rparr>) of
                Inl e \<Rightarrow> Inl e
              | Inr st' \<Rightarrow> readFromAllInputs_from rest st')))"

definition readFromAllInputs :: "state \<Rightarrow> state result" where
  "readFromAllInputs st = readFromAllInputs_from [0..<num_inputs st] st"

section \<open>prepare (lines 106-219)\<close>

definition need_input :: "state \<Rightarrow> nat \<Rightarrow> bool" where
  "need_input st input_num =
     (if last_bucket_number st ! input_num < current_bucket st then True
      else expect_several_chunks_for_single_bucket_per_source st
           \<and> last_bucket_number st ! input_num = current_bucket st)"

text \<open>
  One pass of the inner \<open>for\<close> loop (lines 162-189) over the ports still to visit, with the
  locals \<open>finished\<close> and \<open>need_data\<close>: either the pass returns from \<open>prepare\<close>
  (\<open>Returned\<close>), or it runs to its end (\<open>Passed\<close>).
\<close>

datatype pass = Returned state status | Passed state bool bool

fun read_inputs :: "nat list \<Rightarrow> bool \<Rightarrow> bool \<Rightarrow> state \<Rightarrow> pass result" where
  "read_inputs [] finished need_data st = Inr (Passed st finished need_data)"
| "read_inputs (input_num # rest) finished need_data st =
     (if isFinished (inputs st ! input_num) then read_inputs rest finished need_data st
      else if \<not> need_input st input_num then read_inputs rest False need_data st
      else
        (case in_data (inputs st ! input_num) of
           None \<Rightarrow>
             read_inputs rest False True
               (st\<lparr>inputs := (inputs st)[input_num := setNeeded (inputs st ! input_num)]\<rparr>)
         | Some chunk \<Rightarrow>
             (case addChunk chunk input_num
                     (st\<lparr>inputs := (inputs st)[input_num := pull (setNeeded (inputs st ! input_num))]\<rparr>) of
                Inl e \<Rightarrow> Inl e
              | Inr st' \<Rightarrow>
                  if has_two_level st' \<and> single_level_chunks st' \<noteq> [] then Inr (Returned st' Ready)
                  else read_inputs rest False (need_data \<or> need_input st' input_num) st')))"

text \<open>
  The outer loop \<open>for (; ; ++current_bucket)\<close> (lines 157-199). \<open>Inr (st, None)\<close> is the
  \<open>break\<close>, \<open>Inr (st, Some s)\<close> a \<open>return s\<close> from inside the loop.
\<close>

partial_function (option) read_next_bucket :: "state \<Rightarrow> (state \<times> status option) result option" where
  "read_next_bucket st =
     (case read_inputs [0..<num_inputs st] True False st of
        Inl e \<Rightarrow> Some (Inl e)
      | Inr (Returned st' s) \<Rightarrow> Some (Inr (st', Some s))
      | Inr (Passed st' finished need_data) \<Rightarrow>
          if finished then Some (Inr (st'\<lparr>all_inputs_finished := True\<rparr>, None))
          else if need_data then Some (Inr (st', Some NeedData))
          else read_next_bucket (st'\<lparr>current_bucket := current_bucket st' + 1\<rparr>))"

text \<open>
  \<open>prepare\<close> in three parts, each a stretch of the function. \<open>prepare_begin\<close> is lines
  106-140: it returns from \<open>prepare\<close> (\<open>Inl\<close>), or goes on in the state it has reached
  (\<open>Inr\<close>). \<open>prepare_output\<close> is lines 142-199, entered once the output can take a chunk.
  \<open>prepare_push_again\<close> is lines 201-218, entered after the \<open>break\<close> with the local
  \<open>pushed_to_output\<close>.
\<close>

definition prepare_begin :: "state \<Rightarrow> (state \<times> status) result + state" where
  "prepare_begin st =
     (if out_finished (outputs_front st) then
        Inl (Inr (st\<lparr>inputs := map close_port (inputs st), chunks := [], last_bucket_number := []\<rparr>,
                  Finished))
      else
        (case (if \<not> read_from_all_inputs st then readFromAllInputs st else Inr st) of
           Inl e \<Rightarrow> Inl (Inl e)
         | Inr st1 \<Rightarrow>
             if \<not> read_from_all_inputs st1 then Inl (Inr (st1, NeedData))
             else if has_two_level st1 \<and> single_level_chunks st1 \<noteq> [] then Inl (Inr (st1, Ready))
             else if \<not> canPush (outputs_front st1) then
               Inl (Inr (st1\<lparr>inputs := map setNotNeeded (inputs st1)\<rparr>, PortFull))
             else Inr st1))"

definition prepare_push_again :: "state \<Rightarrow> bool \<Rightarrow> (state \<times> status) result option" where
  "prepare_push_again st pushed_to_output =
     (case (if \<not> pushed_to_output
            then (if has_two_level st then tryPushTwoLevelData st
                  else Some (tryPushSingleLevelData st))
            else Some (st, pushed_to_output)) of
        None \<Rightarrow> None
      | Some (st1, pushed1) \<Rightarrow>
          (case (if \<not> pushed1 then tryPushOverflowData st1 else (st1, pushed1)) of
             (st2, pushed2) \<Rightarrow>
               if pushed2 then Some (Inr (st2, PortFull))
               else Some (Inr (st2\<lparr>outputs_front := finish (outputs_front st2)\<rparr>, Finished))))"

definition prepare_output :: "state \<Rightarrow> (state \<times> status) result option" where
  "prepare_output st =
     (case (if has_two_level st then tryPushTwoLevelData st else Some (st, False)) of
        None \<Rightarrow> None
      | Some (st1, pushed_to_output) \<Rightarrow>
          (case read_next_bucket st1 of
             None \<Rightarrow> None
           | Some (Inl e) \<Rightarrow> Some (Inl e)
           | Some (Inr (st2, Some s)) \<Rightarrow> Some (Inr (st2, s))
           | Some (Inr (st2, None)) \<Rightarrow> prepare_push_again st2 pushed_to_output))"

definition prepare :: "state \<Rightarrow> (state \<times> status) result option" where
  "prepare st =
     (case prepare_begin st of
        Inl returned \<Rightarrow> Some returned
      | Inr st1 \<Rightarrow> prepare_output st1)"

text \<open>
  The states in which a call of \<open>prepare\<close> calls \<open>tryPushTwoLevelData\<close>: at line 146, and
  at line 205 when the first call pushed nothing and the loop ended with its \<open>break\<close>.
\<close>

inductive calls_tryPushTwoLevelData :: "state \<Rightarrow> state \<Rightarrow> bool" where
  line_146:
    "prepare_begin st = Inr st1 \<Longrightarrow> has_two_level st1 \<Longrightarrow> calls_tryPushTwoLevelData st st1"
| line_205:
    "prepare_begin st = Inr st1
     \<Longrightarrow> (if has_two_level st1 then tryPushTwoLevelData st1 else Some (st1, False)) = Some (st2, False)
     \<Longrightarrow> read_next_bucket st2 = Some (Inr (st3, None))
     \<Longrightarrow> has_two_level st3
     \<Longrightarrow> calls_tryPushTwoLevelData st st3"

section \<open>work (lines 246-261)\<close>

text \<open>
  \<open>convertBlockToTwoLevel\<close> belongs to the aggregator, an external collaborator: a parameter,
  from the columns of a block to the (bucket, columns) pairs of its parts. The new chunks
  carry no info.
\<close>

definition work :: "(nat \<Rightarrow> (int \<times> nat) list) \<Rightarrow> state \<Rightarrow> state" where
  "work convertBlockToTwoLevel st =
     (if single_level_chunks st \<noteq> [] then
        fold (\<lambda>(bucket, cols) s. s\<lparr>chunks := emplace_back_at bucket (Chunk cols NoInfo) (chunks s)\<rparr>)
          (convertBlockToTwoLevel (detachColumns (last (single_level_chunks st))))
          (st\<lparr>single_level_chunks := butlast (single_level_chunks st)\<rparr>)
      else st)"

section \<open>MergingAggregatedBucketTransform::transform (lines 270-288)\<close>


section \<open>Runs: the scheduler, the producers and the consumer\<close>

text \<open>
  Modelled from the spec: the pipeline runtime of section 5 is not among the sources. A run
  is a list of events. \<open>Feed i c\<close>: producer \<open>i\<close> puts chunk \<open>c\<close> into its (open, empty)
  port. \<open>Close i\<close>: producer \<open>i\<close> is exhausted. \<open>Drain\<close>: the consumer asks for data and takes
  what the output port holds. \<open>Cancel\<close>: the consumer finishes the output port.
  \<open>Prepare\<close> and \<open>Work\<close>: the scheduler calls the method; \<open>work\<close> only after a
  \<open>prepare\<close> that returned \<open>Ready\<close>. The statuses returned by \<open>prepare\<close> are collected,
  oldest first. An event the protocol forbids ends the run with \<open>PROTOCOL_ERROR\<close>, as an
  exception ends it with its error; \<open>None\<close> is a run whose last call does not return.
\<close>

datatype event = Feed nat chunk | Close nat | Drain | Cancel | Prepare | Work

definition exec :: "(nat \<Rightarrow> (int \<times> nat) list) \<Rightarrow> event \<Rightarrow> state \<times> status list
    \<Rightarrow> ((error \<times> state) + state \<times> status list) option" where
  "exec conv ev w =
     (case w of (st, trace) \<Rightarrow>
       (case ev of
          Feed i c \<Rightarrow>
            if i < length (inputs st) \<and> \<not> in_finished (inputs st ! i) \<and> in_data (inputs st ! i) = None
            then Some (Inr (st\<lparr>inputs := (inputs st)[i := (inputs st ! i)\<lparr>in_data := Some c\<rparr>]\<rparr>, trace))
            else Some (Inl (PROTOCOL_ERROR, st))
        | Close i \<Rightarrow>
            if i < length (inputs st)
            then Some (Inr (st\<lparr>inputs := (inputs st)[i := (inputs st ! i)\<lparr>in_finished := True\<rparr>]\<rparr>, trace))
            else Some (Inl (PROTOCOL_ERROR, st))
        | Drain \<Rightarrow>
            Some (Inr (st\<lparr>outputs_front := (outputs_front st)\<lparr>out_needed := True, out_has_data := False\<rparr>\<rparr>,
                       trace))
        | Cancel \<Rightarrow>
            Some (Inr (st\<lparr>outputs_front := (outputs_front st)\<lparr>out_finished := True\<rparr>\<rparr>, trace))
        | Prepare \<Rightarrow>
            (case prepare st of
               None \<Rightarrow> None
             | Some (Inl e) \<Rightarrow> Some (Inl e)
             | Some (Inr (st', s)) \<Rightarrow> Some (Inr (st', trace @ [s])))
        | Work \<Rightarrow>
            if trace \<noteq> [] \<and> last trace = Ready then Some (Inr (work conv st, trace))
            else Some (Inl (PROTOCOL_ERROR, st))))"

fun run :: "(nat \<Rightarrow> (int \<times> nat) list) \<Rightarrow> event list \<Rightarrow> state \<times> status list
    \<Rightarrow> ((error \<times> state) + state \<times> status list) option" where
  "run conv [] w = Some (Inr w)"
| "run conv (ev # evs) w =
     (case exec conv ev w of
        None \<Rightarrow> None
      | Some (Inl e) \<Rightarrow> Some (Inl e)
      | Some (Inr w') \<Rightarrow> run conv evs w')"

section \<open>Producers and the release frontier\<close>

text \<open>
  The bucket of a numbered chunk: one that \<open>addChunk\<close> files under a bucket (not an overflow
  chunk, bucket at least 0). \<open>producer_buckets i evs\<close> are the buckets of the numbered chunks
  that producer \<open>i\<close> delivers in the run \<open>evs\<close>, in order.
\<close>

fun numbered_bucket :: "chunk \<Rightarrow> int option" where
  "numbered_bucket (Chunk cols (AggregatedChunkInfo bucket ov)) =
     (if \<not> ov \<and> 0 \<le> bucket then Some bucket else None)"
| "numbered_bucket (Chunk cols info) = None"

fun producer_buckets :: "nat \<Rightarrow> event list \<Rightarrow> int list" where
  "producer_buckets i [] = []"
| "producer_buckets i (Feed j c # evs) =
     (case numbered_bucket c of
        None \<Rightarrow> producer_buckets i evs
      | Some bucket \<Rightarrow> if j = i then bucket # producer_buckets i evs else producer_buckets i evs)"
| "producer_buckets i (ev # evs) = producer_buckets i evs"

text \<open>
  The invariant behind the release frontier, for a bound \<open>floor i\<close> on what producer \<open>i\<close>
  has delivered so far: the vectors have their length; \<open>current_bucket\<close> is at most one
  ahead of the last bucket of every input that is not finished; a chunk waiting in a port is
  not below the last bucket of its input.
\<close>

definition frontier_inv :: "(nat \<Rightarrow> int) \<Rightarrow> state \<Rightarrow> bool" where
  "frontier_inv floor st =
     (length (inputs st) = num_inputs st
      \<and> length (last_bucket_number st) = num_inputs st
      \<and> (\<forall>i < num_inputs st.
            (\<not> isFinished (inputs st ! i) \<longrightarrow> current_bucket st \<le> last_bucket_number st ! i + 1)
            \<and> last_bucket_number st ! i \<le> floor i
            \<and> (\<forall>c bucket. in_data (inputs st ! i) = Some c \<longrightarrow> numbered_bucket c = Some bucket
                  \<longrightarrow> last_bucket_number st ! i \<le> bucket \<and> bucket \<le> floor i)))"

text \<open>
  What reading from the inputs can do to a state: it leaves the number of inputs,
  \<open>current_bucket\<close> and the output's finished flag alone, no last bucket decreases and no
  finished input comes back. \<open>caught_up D st\<close>: the inputs in \<open>D\<close> that are not finished
  have reached \<open>current_bucket\<close>. \<open>run_inv\<close>: the invariant of a run; once the output is
  finished \<open>prepare\<close> empties \<open>last_bucket_number\<close> and nothing is released any more.
\<close>

definition advances :: "state \<Rightarrow> state \<Rightarrow> bool" where
  "advances st st' =
     (num_inputs st' = num_inputs st
      \<and> current_bucket st' = current_bucket st
      \<and> out_finished (outputs_front st') = out_finished (outputs_front st)
      \<and> (\<forall>j < num_inputs st. last_bucket_number st ! j \<le> last_bucket_number st' ! j)
      \<and> (\<forall>j < num_inputs st. isFinished (inputs st ! j) \<longrightarrow> isFinished (inputs st' ! j)))"

definition caught_up :: "nat set \<Rightarrow> state \<Rightarrow> bool" where
  "caught_up D st =
     (\<forall>j \<in> D. j < num_inputs st \<longrightarrow> \<not> isFinished (inputs st ! j)
        \<longrightarrow> current_bucket st \<le> last_bucket_number st ! j)"

definition run_inv :: "(nat \<Rightarrow> int) \<Rightarrow> state \<Rightarrow> bool" where
  "run_inv floor st = (out_finished (outputs_front st) \<or> frontier_inv floor st)"

declare tryPushTwoLevelData.simps [code]
declare read_next_bucket.simps [code]

section \<open>Observations on a run\<close>

text \<open>The bucket numbers carried by the non-overflow groups of an output stream, in order.\<close>

fun group_bucket :: "chunk \<Rightarrow> int list" where
  "group_bucket (Chunk cols (ChunksToMerge cs bucket ov)) = (if ov then [] else [bucket])"
| "group_bucket (Chunk cols info) = []"

definition group_buckets :: "chunk list \<Rightarrow> int list" where
  "group_buckets stream = concat (map group_bucket stream)"

text \<open>The member chunks of all groups of an output stream, in order.\<close>

fun group_members :: "chunk \<Rightarrow> chunk list" where
  "group_members (Chunk cols (ChunksToMerge cs bucket ov)) = cs"
| "group_members (Chunk cols info) = []"

definition emitted_members :: "chunk list \<Rightarrow> chunk list" where
  "emitted_members stream = concat (map group_members stream)"



section \<open>Basic facts\<close>

lemma run_snoc:
  "run conv (evs @ [ev]) w =
     (case run conv evs w of
        None \<Rightarrow> None
      | Some (Inl e) \<Rightarrow> Some (Inl e)
      | Some (Inr w') \<Rightarrow> exec conv ev w')"
  by (induction evs arbitrary: w) (auto split: option.splits sum.splits)

text \<open>
  Induction along the iterations of the loop of \<open>tryPushTwoLevelData\<close>, for a call that
  returns: the exit, the two \<open>continue\<close>s and the push.
\<close>

lemma tryPushTwoLevelData_induct [consumes 1, case_names exit absent empty push]:
  assumes ret: "tryPushTwoLevelData st = Some r"
    and exit: "\<And>st. \<not> (next_bucket_to_push st < current_bucket st \<or> (all_inputs_finished st \<and> chunks st = []))
        \<Longrightarrow> P st (st, False)"
    and absent: "\<And>st r. next_bucket_to_push st < current_bucket st \<or> (all_inputs_finished st \<and> chunks st = [])
        \<Longrightarrow> map_of (chunks st) (next_bucket_to_push st) = None
        \<Longrightarrow> tryPushTwoLevelData (st\<lparr>next_bucket_to_push := next_bucket_to_push st + 1\<rparr>) = Some r
        \<Longrightarrow> P (st\<lparr>next_bucket_to_push := next_bucket_to_push st + 1\<rparr>) r
        \<Longrightarrow> P st r"
    and empty: "\<And>st r. next_bucket_to_push st < current_bucket st \<or> (all_inputs_finished st \<and> chunks st = [])
        \<Longrightarrow> map_of (chunks st) (next_bucket_to_push st) = Some []
        \<Longrightarrow> tryPushTwoLevelData (st\<lparr>chunks := AList.delete (next_bucket_to_push st) (chunks st),
                                        next_bucket_to_push := next_bucket_to_push st + 1\<rparr>) = Some r
        \<Longrightarrow> P (st\<lparr>chunks := AList.delete (next_bucket_to_push st) (chunks st),
                  next_bucket_to_push := next_bucket_to_push st + 1\<rparr>) r
        \<Longrightarrow> P st r"
    and push: "\<And>st cur_chunks. next_bucket_to_push st < current_bucket st \<or> (all_inputs_finished st \<and> chunks st = [])
        \<Longrightarrow> map_of (chunks st) (next_bucket_to_push st) = Some cur_chunks
        \<Longrightarrow> cur_chunks \<noteq> []
        \<Longrightarrow> P st ((pushData cur_chunks (current_bucket st) False st)
                    \<lparr>chunks := AList.delete (next_bucket_to_push st) (chunks st)\<rparr>, True)"
  shows "P st r"
proof -
  have "tryPushTwoLevelData st = Some r \<longrightarrow> P st r"
  proof (rule tryPushTwoLevelData.raw_induct
      [where P = "\<lambda>st r. tryPushTwoLevelData st = Some r \<longrightarrow> P st r", OF _ ret])
    fix f st r
    assume IH: "\<And>x y. f x = Some y \<Longrightarrow> tryPushTwoLevelData x = Some y \<longrightarrow> P x y"
      and eq: "(if next_bucket_to_push st < current_bucket st \<or> (all_inputs_finished st \<and> chunks st = [])
        then
          (case map_of (chunks st) (next_bucket_to_push st) of
             None \<Rightarrow> f (st\<lparr>next_bucket_to_push := next_bucket_to_push st + 1\<rparr>)
           | Some cur_chunks \<Rightarrow>
               if cur_chunks = [] then
                 f (st\<lparr>chunks := AList.delete (next_bucket_to_push st) (chunks st),
                       next_bucket_to_push := next_bucket_to_push st + 1\<rparr>)
               else
                 Some ((pushData cur_chunks (current_bucket st) False st)
                         \<lparr>chunks := AList.delete (next_bucket_to_push st) (chunks st)\<rparr>, True))
        else Some (st, False)) = Some r"
    show "tryPushTwoLevelData st = Some r \<longrightarrow> P st r"
    proof
      assume call: "tryPushTwoLevelData st = Some r"
      show "P st r"
      proof (cases "next_bucket_to_push st < current_bucket st \<or> (all_inputs_finished st \<and> chunks st = [])")
        case False
        with eq have "r = (st, False)" by simp
        with exit [OF False] show ?thesis by simp
      next
        case cond: True
        show ?thesis
        proof (cases "map_of (chunks st) (next_bucket_to_push st)")
          case None
          let ?st' = "st\<lparr>next_bucket_to_push := next_bucket_to_push st + 1\<rparr>"
          from eq cond None have "f ?st' = Some r" by simp
          moreover from call cond None have c': "tryPushTwoLevelData ?st' = Some r"
            by (subst (asm) tryPushTwoLevelData.simps) simp
          ultimately have "P ?st' r" using IH by blast
          with absent [OF cond None c'] show ?thesis .
        next
          case (Some cur_chunks)
          show ?thesis
          proof (cases "cur_chunks = []")
            case True
            let ?st' = "st\<lparr>chunks := AList.delete (next_bucket_to_push st) (chunks st),
                            next_bucket_to_push := next_bucket_to_push st + 1\<rparr>"
            from eq cond Some True have "f ?st' = Some r" by simp
            moreover from call cond Some True have c': "tryPushTwoLevelData ?st' = Some r"
              by (subst (asm) tryPushTwoLevelData.simps) simp
            ultimately have "P ?st' r" using IH by blast
            with empty [OF cond _ c'] Some True show ?thesis by simp
          next
            case False
            with eq cond Some
            have "r = ((pushData cur_chunks (current_bucket st) False st)
                         \<lparr>chunks := AList.delete (next_bucket_to_push st) (chunks st)\<rparr>, True)"
              by simp
            with push [OF cond Some False] show ?thesis by simp
          qed
        qed
      qed
    qed
  qed
  with ret show ?thesis by simp
qed

text \<open>
  With every input finished and the map empty the loop condition stays true and nothing is
  ever found: the call does not return.
\<close>

lemma tryPushTwoLevelData_returns_not_drained:
  assumes "tryPushTwoLevelData st = Some r"
  shows "\<not> (all_inputs_finished st \<and> chunks st = [])"
  using assms by (induction rule: tryPushTwoLevelData_induct) auto

lemma tryPushTwoLevelData_diverges:
  "all_inputs_finished st \<Longrightarrow> chunks st = [] \<Longrightarrow> tryPushTwoLevelData st = None"
  using tryPushTwoLevelData_returns_not_drained [of st]
  by (cases "tryPushTwoLevelData st") auto

text \<open>
  Whether a call of \<open>tryPushTwoLevelData\<close> returns, and whether it pushes, depends on the two
  cursors, \<open>all_inputs_finished\<close> and the bucket map only.
\<close>

lemma tryPushTwoLevelData_same_decision:
  assumes "tryPushTwoLevelData st = Some r"
    and "next_bucket_to_push st2 = next_bucket_to_push st" "current_bucket st2 = current_bucket st"
    and "all_inputs_finished st2 = all_inputs_finished st" "chunks st2 = chunks st"
  shows "\<exists>r2. tryPushTwoLevelData st2 = Some r2 \<and> snd r2 = snd r"
  using assms
proof (induction arbitrary: st2 rule: tryPushTwoLevelData_induct)
  case (exit st)
  then show ?case by (subst tryPushTwoLevelData.simps) auto
next
  case (absent st r)
  from absent(4) [of "st2\<lparr>next_bucket_to_push := next_bucket_to_push st2 + 1\<rparr>"] absent(5-8)
  obtain r2 where "tryPushTwoLevelData (st2\<lparr>next_bucket_to_push := next_bucket_to_push st2 + 1\<rparr>) = Some r2"
    "snd r2 = snd r" by auto
  with absent(1,2,5-8) show ?case by (subst tryPushTwoLevelData.simps) auto
next
  case (empty st r)
  from empty(4) [of "st2\<lparr>chunks := AList.delete (next_bucket_to_push st2) (chunks st2),
      next_bucket_to_push := next_bucket_to_push st2 + 1\<rparr>"] empty(5-8)
  obtain r2 where "tryPushTwoLevelData (st2\<lparr>chunks := AList.delete (next_bucket_to_push st2) (chunks st2),
      next_bucket_to_push := next_bucket_to_push st2 + 1\<rparr>) = Some r2"
    "snd r2 = snd r" by auto
  with empty(1,2,5-8) show ?case by (subst tryPushTwoLevelData.simps) auto
next
  case (push st cur_chunks)
  then show ?case by (subst tryPushTwoLevelData.simps) auto
qed

lemma tryPushTwoLevelData_decision_eq:
  assumes "next_bucket_to_push st2 = next_bucket_to_push st" "current_bucket st2 = current_bucket st"
    and "all_inputs_finished st2 = all_inputs_finished st" "chunks st2 = chunks st"
  shows "map_option snd (tryPushTwoLevelData st2) = map_option snd (tryPushTwoLevelData st)"
proof (cases "tryPushTwoLevelData st")
  case None
  show ?thesis
  proof (cases "tryPushTwoLevelData st2")
    case (Some r2)
    from tryPushTwoLevelData_same_decision [OF Some, of st] assms None show ?thesis by simp
  qed (simp add: None)
next
  case (Some r)
  from tryPushTwoLevelData_same_decision [OF Some assms] Some show ?thesis by auto
qed

lemma prepare_diverges:
  assumes "\<not> out_finished (outputs_front st)" and "read_from_all_inputs st"
    and "has_two_level st" and "single_level_chunks st = []" and "canPush (outputs_front st)"
    and "all_inputs_finished st" and "chunks st = []"
  shows "prepare st = None"
  using assms
  by (simp add: prepare_def prepare_begin_def prepare_output_def tryPushTwoLevelData_diverges)

text \<open>
  Induction along the iterations of the loop over the buckets in \<open>prepare\<close>, for a call that
  returns: the exception, the \<open>return\<close> from inside a pass, the \<open>break\<close>, the
  \<open>return NeedData\<close> and the step to the next bucket.
\<close>

lemma read_next_bucket_induct [consumes 1, case_names threw returned break need_data next_bucket]:
  assumes ret: "read_next_bucket st = Some r"
    and threw: "\<And>st e. read_inputs [0..<num_inputs st] True False st = Inl e \<Longrightarrow> P st (Inl e)"
    and returned: "\<And>st st' s. read_inputs [0..<num_inputs st] True False st = Inr (Returned st' s)
        \<Longrightarrow> P st (Inr (st', Some s))"
    and break: "\<And>st st' need_data. read_inputs [0..<num_inputs st] True False st = Inr (Passed st' True need_data)
        \<Longrightarrow> P st (Inr (st'\<lparr>all_inputs_finished := True\<rparr>, None))"
    and need_data: "\<And>st st'. read_inputs [0..<num_inputs st] True False st = Inr (Passed st' False True)
        \<Longrightarrow> P st (Inr (st', Some NeedData))"
    and next_bucket: "\<And>st st' r. read_inputs [0..<num_inputs st] True False st = Inr (Passed st' False False)
        \<Longrightarrow> read_next_bucket (st'\<lparr>current_bucket := current_bucket st' + 1\<rparr>) = Some r
        \<Longrightarrow> P (st'\<lparr>current_bucket := current_bucket st' + 1\<rparr>) r
        \<Longrightarrow> P st r"
  shows "P st r"
proof -
  have "read_next_bucket st = Some r \<longrightarrow> P st r"
  proof (rule read_next_bucket.raw_induct
      [where P = "\<lambda>st r. read_next_bucket st = Some r \<longrightarrow> P st r", OF _ ret])
    fix f st r
    assume IH: "\<And>x y. f x = Some y \<Longrightarrow> read_next_bucket x = Some y \<longrightarrow> P x y"
      and eq: "(case read_inputs [0..<num_inputs st] True False st of
          Inl e \<Rightarrow> Some (Inl e)
        | Inr (Returned st' s) \<Rightarrow> Some (Inr (st', Some s))
        | Inr (Passed st' finished need_data) \<Rightarrow>
            if finished then Some (Inr (st'\<lparr>all_inputs_finished := True\<rparr>, None))
            else if need_data then Some (Inr (st', Some NeedData))
            else f (st'\<lparr>current_bucket := current_bucket st' + 1\<rparr>)) = Some r"
    show "read_next_bucket st = Some r \<longrightarrow> P st r"
    proof
      assume call: "read_next_bucket st = Some r"
      show "P st r"
      proof (cases "read_inputs [0..<num_inputs st] True False st")
        case (Inl e)
        with eq threw [OF Inl] show ?thesis by simp
      next
        case (Inr p)
        show ?thesis
        proof (cases p)
          case (Returned st' s)
          with Inr eq returned [of st st' s] show ?thesis by simp
        next
          case (Passed st' finished nd)
          show ?thesis
          proof (cases finished)
            case True
            with Inr Passed eq break [of st st' nd] show ?thesis by simp
          next
            case fin: False
            show ?thesis
            proof (cases nd)
              case True
              with Inr Passed fin eq need_data [of st st'] show ?thesis by simp
            next
              case False
              let ?st' = "st'\<lparr>current_bucket := current_bucket st' + 1\<rparr>"
              from Inr Passed fin False eq have "f ?st' = Some r" by simp
              moreover from Inr Passed fin False call have c': "read_next_bucket ?st' = Some r"
                by (subst (asm) read_next_bucket.simps) simp
              ultimately have "P ?st' r" using IH by blast
              with next_bucket [of st st' r] Inr Passed fin False c' show ?thesis by simp
            qed
          qed
        qed
      qed
    qed
  qed
  with ret show ?thesis by simp
qed

section \<open>The tag contract\<close>












section \<open>What a chunk does to the frontier\<close>

text \<open>
  C10 (frontier insulation). A chunk that \<open>addChunk\<close> accepts changes
  \<open>last_bucket_number\<close> and sets \<open>has_two_level\<close> only when it is not an overflow chunk and
  its bucket is at least 0, and then only the entry of its own input. An overflow chunk or a
  chunk with a negative bucket leaves \<open>last_bucket_number\<close>, \<open>has_two_level\<close>, the bucket
  map, both cursors and \<open>all_inputs_finished\<close> as they were, so \<open>need_input\<close> answers the
  same for every input and \<open>tryPushTwoLevelData\<close> releases a bucket after the chunk exactly
  when it would have released one before it.
\<close>

theorem frontier_insulation:
  assumes "addChunk (Chunk cols (AggregatedChunkInfo bucket is_overflows)) input st = Inr st'"
  shows "if is_overflows \<or> bucket < 0
         then last_bucket_number st' = last_bucket_number st
              \<and> has_two_level st' = has_two_level st
              \<and> chunks st' = chunks st
              \<and> current_bucket st' = current_bucket st
              \<and> next_bucket_to_push st' = next_bucket_to_push st
              \<and> all_inputs_finished st' = all_inputs_finished st
              \<and> (\<forall>i. need_input st' i = need_input st i)
              \<and> map_option snd (tryPushTwoLevelData st') = map_option snd (tryPushTwoLevelData st)
         else last_bucket_number st' = (last_bucket_number st)[input := bucket]
              \<and> has_two_level st'"
proof (cases "is_overflows \<or> bucket < 0")
  case True
  with assms have same: "last_bucket_number st' = last_bucket_number st"
    "has_two_level st' = has_two_level st" "chunks st' = chunks st"
    "current_bucket st' = current_bucket st" "next_bucket_to_push st' = next_bucket_to_push st"
    "all_inputs_finished st' = all_inputs_finished st"
    "expect_several_chunks_for_single_bucket_per_source st'
      = expect_several_chunks_for_single_bucket_per_source st"
    by (auto simp: addChunk_def split: if_splits)
  from same have "\<forall>i. need_input st' i = need_input st i"
    by (simp add: need_input_def)
  moreover from same
  have "map_option snd (tryPushTwoLevelData st') = map_option snd (tryPushTwoLevelData st)"
    by (intro tryPushTwoLevelData_decision_eq) simp_all
  ultimately show ?thesis using True same by simp
next
  case False
  with assms show ?thesis by (auto simp: addChunk_def split: if_splits)
qed

theorem frontier_insulation_witness:
  "(\<exists>st'. addChunk (Chunk 7 (AggregatedChunkInfo (-1) True)) 1
            ((init 2 False)\<lparr>last_bucket_number := [4, 5], current_bucket := 5\<rparr>) = Inr st'
      \<and> last_bucket_number st' = [4, 5] \<and> \<not> has_two_level st')
   \<and> (\<exists>st'. addChunk (Chunk 7 (AggregatedChunkInfo (-1) False)) 1
            ((init 2 False)\<lparr>last_bucket_number := [4, 5], current_bucket := 5\<rparr>) = Inr st'
      \<and> last_bucket_number st' = [4, 5] \<and> \<not> has_two_level st')
   \<and> (\<exists>st'. addChunk (Chunk 7 (AggregatedChunkInfo 9 False)) 1
            ((init 2 False)\<lparr>last_bucket_number := [4, 5], current_bucket := 5\<rparr>) = Inr st'
      \<and> last_bucket_number st' = [4, 9] \<and> has_two_level st')"
proof -
  let ?st = "(init 2 False)\<lparr>last_bucket_number := [4, 5], current_bucket := 5\<rparr>"
  let ?a = "?st\<lparr>overflow_chunks := [Chunk 7 (AggregatedChunkInfo (-1) True)]\<rparr>"
  let ?b = "?st\<lparr>single_level_chunks := [Chunk 7 (AggregatedChunkInfo (-1) False)]\<rparr>"
  let ?c = "?st\<lparr>chunks := [(9, [Chunk 7 (AggregatedChunkInfo 9 False)])],
                has_two_level := True, last_bucket_number := [4, 9]\<rparr>"
  have a: "addChunk (Chunk 7 (AggregatedChunkInfo (-1) True)) 1 ?st = Inr ?a"
    by (simp add: addChunk_def init_def)
  have b: "addChunk (Chunk 7 (AggregatedChunkInfo (-1) False)) 1 ?st = Inr ?b"
    by (simp add: addChunk_def init_def)
  have c: "addChunk (Chunk 7 (AggregatedChunkInfo 9 False)) 1 ?st = Inr ?c"
    by (simp add: addChunk_def init_def emplace_back_at_def)
  have st: "last_bucket_number ?st = [4, 5]" "\<not> has_two_level ?st"
    by (simp_all add: init_def)
  from frontier_insulation [OF a] st
  have "last_bucket_number ?a = [4, 5] \<and> \<not> has_two_level ?a" by simp
  moreover from frontier_insulation [OF b] st
  have "last_bucket_number ?b = [4, 5] \<and> \<not> has_two_level ?b" by simp
  moreover from frontier_insulation [OF c] st
  have "last_bucket_number ?c = [4, 9] \<and> has_two_level ?c" by simp
  ultimately show ?thesis
    using a b c by blast
qed

section \<open>Runs on which the transform loses, repeats or mislabels data\<close>

text \<open>
  C1 (completeness). Two producers; the first sends one chunk of bucket 0, the second one
  chunk of bucket 1, and both are exhausted. The third \<open>prepare\<close> returns \<open>Finished\<close>:
  the chunk of bucket 0 is the only one that was ever emitted, and the chunk of bucket 1 is
  still in the bucket map. With every input finished and the map not empty, the loop of
  \<open>tryPushTwoLevelData\<close> stops at \<open>current_bucket\<close>.
\<close>

theorem bucket_left_behind_at_finish:
  "(case run (\<lambda>cols. [])
           [Drain, Feed 0 (Chunk 1 (AggregatedChunkInfo 0 False)),
            Feed 1 (Chunk 2 (AggregatedChunkInfo 1 False)), Prepare,
            Close 0, Close 1, Prepare, Drain, Prepare]
           (init 2 False, []) of
      Some (Inr (st, trace)) \<Rightarrow>
        trace = [NeedData, PortFull, Finished]
        \<and> out_finished (outputs_front st)
        \<and> emitted_members (out_stream (outputs_front st)) = [Chunk 1 (AggregatedChunkInfo 0 False)]
        \<and> chunks st = [(1, [Chunk 2 (AggregatedChunkInfo 1 False)])]
    | _ \<Rightarrow> False)"
  by code_simp

text \<open>
  C2 (termination). One producer sends one chunk of bucket 0 and is exhausted; the second
  \<open>prepare\<close> emits the bucket and sets \<open>all_inputs_finished\<close>. Now every producer is
  exhausted and the bucket map and both accumulators are empty, and the next \<open>prepare\<close>
  does not return: \<open>tryPushTwoLevelData\<close> loops on
  \<open>all_inputs_finished && chunks.empty()\<close>.
\<close>

theorem prepare_loops_when_drained:
  "run (\<lambda>cols. [])
     [Drain, Feed 0 (Chunk 1 (AggregatedChunkInfo 0 False)), Prepare, Close 0, Prepare, Drain, Prepare]
     (init 1 False, []) = None"
proof -
  let ?st = "\<lparr>inputs = [\<lparr>in_finished = True, in_needed = True, in_data = None\<rparr>],
      outputs_front = \<lparr>out_finished = False, out_needed = True, out_has_data = False,
        out_stream = [Chunk 0 (ChunksToMerge [Chunk 1 (AggregatedChunkInfo 0 False)] 1 False)]\<rparr>,
      num_inputs = 1, last_bucket_number = [0], read_from_input = [True],
      read_from_all_inputs = True, has_two_level = True, all_inputs_finished = True,
      expect_several_chunks_for_single_bucket_per_source = False,
      current_bucket = 1, next_bucket_to_push = 0, chunks = [],
      single_level_chunks = [], overflow_chunks = []\<rparr>"
  have before: "run (\<lambda>cols. [])
      [Drain, Feed 0 (Chunk 1 (AggregatedChunkInfo 0 False)), Prepare, Close 0, Prepare, Drain]
      (init 1 False, []) = Some (Inr (?st, [NeedData, PortFull]))"
    by code_simp
  have "prepare ?st = None"
    by (rule prepare_diverges) (simp_all add: canPush_def)
  with before show ?thesis
    using run_snoc [of "\<lambda>cols. []"
        "[Drain, Feed 0 (Chunk 1 (AggregatedChunkInfo 0 False)), Prepare, Close 0, Prepare, Drain]"
        Prepare "(init 1 False, [])"]
    by (simp add: exec_def)
qed

text \<open>
  C3 (release tagging). One producer sends one chunk of bucket 0 and is exhausted. The group
  released for bucket 0 holds exactly that chunk and the entry of bucket 0 is gone, but the
  group carries bucket number 1, the value of \<open>current_bucket\<close>, and
  \<open>next_bucket_to_push\<close> is still 0.
\<close>

theorem released_group_carries_current_bucket:
  "(case run (\<lambda>cols. [])
           [Drain, Feed 0 (Chunk 1 (AggregatedChunkInfo 0 False)), Prepare, Close 0, Prepare]
           (init 1 False, []) of
      Some (Inr (st, trace)) \<Rightarrow>
        out_stream (outputs_front st)
          = [Chunk 0 (ChunksToMerge [Chunk 1 (AggregatedChunkInfo 0 False)] 1 False)]
        \<and> map_of (chunks st) 0 = None
        \<and> next_bucket_to_push st = 0
        \<and> current_bucket st = 1
    | _ \<Rightarrow> False)"
  by code_simp

text \<open>
  C4 (single-level correctness). One producer sends one chunk without a bucket and is
  exhausted. Every later \<open>prepare\<close> that finds the output free emits the single-level group
  again: \<open>single_level_chunks\<close> is copied into the group and never emptied, and
  \<open>prepare\<close> never returns \<open>Finished\<close>.
\<close>

theorem single_level_group_emitted_again:
  "(case run (\<lambda>cols. [])
           [Drain, Feed 0 (Chunk 3 (AggregatedChunkInfo (-1) False)), Prepare, Close 0,
            Prepare, Drain, Prepare, Drain, Prepare]
           (init 1 False, []) of
      Some (Inr (st, trace)) \<Rightarrow>
        trace = [NeedData, PortFull, PortFull, PortFull]
        \<and> out_stream (outputs_front st)
          = replicate 3 (Chunk 0 (ChunksToMerge [Chunk 3 (AggregatedChunkInfo (-1) False)] (-1) False))
        \<and> single_level_chunks st = [Chunk 3 (AggregatedChunkInfo (-1) False)]
    | _ \<Rightarrow> False)"
  by code_simp

text \<open>
  C5 (overflow ordering). One producer sends one overflow chunk and is exhausted. The
  overflow group is emitted by the first \<open>prepare\<close> and again by the second:
  \<open>overflow_chunks\<close> is copied into the group and never emptied.
\<close>

theorem overflow_group_emitted_again:
  "(case run (\<lambda>cols. [])
           [Drain, Feed 0 (Chunk 4 (AggregatedChunkInfo (-1) True)), Close 0, Prepare, Drain, Prepare]
           (init 1 False, []) of
      Some (Inr (st, trace)) \<Rightarrow>
        trace = [PortFull, PortFull]
        \<and> out_stream (outputs_front st)
          = replicate 2 (Chunk 0 (ChunksToMerge [Chunk 4 (AggregatedChunkInfo (-1) True)] (-1) True))
        \<and> overflow_chunks st = [Chunk 4 (AggregatedChunkInfo (-1) True)]
    | _ \<Rightarrow> False)"
  by code_simp

text \<open>
  C7 (bucket monotonicity). One producer sends a chunk of bucket 0 and then a chunk of
  bucket 1; the consumer asks for data only after the first \<open>prepare\<close>. Buckets 0 and 1 are
  released in this order, and both groups carry bucket number 2.
\<close>

theorem released_groups_repeat_bucket_number:
  "(case run (\<lambda>cols. [])
           [Feed 0 (Chunk 1 (AggregatedChunkInfo 0 False)), Prepare,
            Feed 0 (Chunk 2 (AggregatedChunkInfo 1 False)), Drain, Prepare, Prepare, Drain, Prepare]
           (init 1 False, []) of
      Some (Inr (st, trace)) \<Rightarrow>
        group_buckets (out_stream (outputs_front st)) = [2, 2]
        \<and> emitted_members (out_stream (outputs_front st))
          = [Chunk 1 (AggregatedChunkInfo 0 False), Chunk 2 (AggregatedChunkInfo 1 False)]
    | _ \<Rightarrow> False)"
  by code_simp

text \<open>
  C9 (cancellation cleanup). Two producers send a chunk without a bucket and an overflow
  chunk; the consumer then finishes the output port. \<open>prepare\<close> closes both inputs, empties
  the bucket map and returns \<open>Finished\<close> without emitting, but \<open>single_level_chunks\<close> and
  \<open>overflow_chunks\<close> still hold their chunks.
\<close>

theorem cancel_keeps_single_level_and_overflow:
  "(case run (\<lambda>cols. [])
           [Drain, Feed 0 (Chunk 3 (AggregatedChunkInfo (-1) False)),
            Feed 1 (Chunk 4 (AggregatedChunkInfo (-1) True)), Prepare, Cancel, Prepare]
           (init 2 False, []) of
      Some (Inr (st, trace)) \<Rightarrow>
        trace = [NeedData, Finished]
        \<and> map in_finished (inputs st) = [True, True]
        \<and> chunks st = []
        \<and> out_stream (outputs_front st) = []
        \<and> single_level_chunks st = [Chunk 3 (AggregatedChunkInfo (-1) False)]
        \<and> overflow_chunks st = [Chunk 4 (AggregatedChunkInfo (-1) True)]
    | _ \<Rightarrow> False)"
  by code_simp

section \<open>No premature release\<close>

subsection \<open>What tryPushTwoLevelData changes and what it releases\<close>

lemma advances_refl: "advances st st"
  by (simp add: advances_def)

lemma advances_trans: "advances st st' \<Longrightarrow> advances st' st'' \<Longrightarrow> advances st st''"
  unfolding advances_def by (metis order_trans)

lemma frontier_inv_frame:
  assumes "inputs st' = inputs st" "num_inputs st' = num_inputs st"
    "last_bucket_number st' = last_bucket_number st" "current_bucket st' = current_bucket st"
  shows "frontier_inv floor st' = frontier_inv floor st"
  using assms by (simp add: frontier_inv_def)

lemma tryPushTwoLevelData_frame:
  assumes "tryPushTwoLevelData st = Some r"
  shows "inputs (fst r) = inputs st \<and> num_inputs (fst r) = num_inputs st
    \<and> last_bucket_number (fst r) = last_bucket_number st
    \<and> current_bucket (fst r) = current_bucket st
    \<and> has_two_level (fst r) = has_two_level st
    \<and> out_finished (outputs_front (fst r)) = out_finished (outputs_front st)
    \<and> next_bucket_to_push st \<le> next_bucket_to_push (fst r)"
  using assms
  by (induction rule: tryPushTwoLevelData_induct) (auto simp: pushData_def push_def)

lemma tryPushTwoLevelData_release:
  assumes "tryPushTwoLevelData st = Some r" and "snd r"
  shows "next_bucket_to_push (fst r) < current_bucket st
    \<and> (\<exists>cur_chunks. map_of (chunks st) (next_bucket_to_push (fst r)) = Some cur_chunks
          \<and> cur_chunks \<noteq> []
          \<and> out_stream (outputs_front (fst r))
              = out_stream (outputs_front st) @ [Chunk 0 (ChunksToMerge cur_chunks (current_bucket st) False)])
    \<and> map_of (chunks (fst r)) (next_bucket_to_push (fst r)) = None"
  using assms
proof (induction rule: tryPushTwoLevelData_induct)
  case (exit st)
  then show ?case by simp
next
  case (absent st r)
  then show ?case by simp
next
  case (empty st r)
  from tryPushTwoLevelData_frame [OF empty(3)]
  have "next_bucket_to_push st < next_bucket_to_push (fst r)" by simp
  with empty show ?case by (simp add: delete_conv)
next
  case (push st cur_chunks)
  then show ?case by (auto simp: pushData_def push_def delete_conv)
qed

subsection \<open>Reading a chunk keeps the invariant\<close>

lemma isFinished_pull_setNeeded:
  "isFinished p \<Longrightarrow> isFinished (pull (setNeeded p))"
  by (simp add: isFinished_def pull_def setNeeded_def)

lemma isFinished_setNeeded [simp]: "isFinished (setNeeded p) = isFinished p"
  by (simp add: isFinished_def setNeeded_def)

lemma in_data_setNeeded [simp]: "in_data (setNeeded p) = in_data p"
  by (simp add: setNeeded_def)

lemma in_data_pull [simp]: "in_data (pull p) = None"
  by (simp add: pull_def)

lemma nth_pulled_finished:
  "j < length ps \<Longrightarrow> isFinished (ps ! j) \<Longrightarrow> isFinished (ps[i := pull (setNeeded (ps ! i))] ! j)"
  by (cases "j = i") (simp_all add: isFinished_pull_setNeeded)

lemma nth_pulled_data:
  "j < length ps \<Longrightarrow> in_data (ps[i := pull (setNeeded (ps ! i))] ! j) = (if j = i then None else in_data (ps ! j))"
  by (cases "j = i") simp_all

lemma nth_setNeeded:
  "j < length ps \<Longrightarrow> isFinished (ps[i := setNeeded (ps ! i)] ! j) = isFinished (ps ! j)"
  "j < length ps \<Longrightarrow> in_data (ps[i := setNeeded (ps ! i)] ! j) = in_data (ps ! j)"
  by (cases "j = i"; simp)+

text \<open>Taking the chunk out of port i and filing it.\<close>

lemma addChunk_pulled:
  assumes inv: "frontier_inv floor st"
    and i: "i < num_inputs st"
    and data: "in_data (inputs st ! i) = Some c"
    and st1: "inputs st1 = (inputs st)[i := pull (setNeeded (inputs st ! i))]"
      "num_inputs st1 = num_inputs st" "last_bucket_number st1 = last_bucket_number st"
      "current_bucket st1 = current_bucket st"
      "out_finished (outputs_front st1) = out_finished (outputs_front st)"
    and add: "addChunk c i st1 = Inr st'"
  shows "frontier_inv floor st' \<and> advances st st'"
proof -
  from inv have len: "length (inputs st) = num_inputs st" "length (last_bucket_number st) = num_inputs st"
    by (simp_all add: frontier_inv_def)
  from inv i data have bound: "\<And>bucket. numbered_bucket c = Some bucket
      \<Longrightarrow> last_bucket_number st ! i \<le> bucket \<and> bucket \<le> floor i"
    by (simp add: frontier_inv_def)
  obtain cols info where c: "c = Chunk cols info" by (cases c)
  from add c obtain bucket ov where info: "info = AggregatedChunkInfo bucket ov"
    by (cases info) (auto simp: addChunk_def)
  show ?thesis
  proof (cases "ov \<or> bucket < 0")
    case True
    with add c info have st': "inputs st' = inputs st1" "num_inputs st' = num_inputs st1"
      "last_bucket_number st' = last_bucket_number st1" "current_bucket st' = current_bucket st1"
      "out_finished (outputs_front st') = out_finished (outputs_front st1)"
      by (auto simp: addChunk_def split: if_splits)
    have "frontier_inv floor st'"
      unfolding frontier_inv_def
    proof (intro conjI allI impI)
      fix j assume j: "j < num_inputs st'"
      then have j': "j < num_inputs st" using st' st1 by simp
      { assume "\<not> isFinished (inputs st' ! j)"
        then have "\<not> isFinished (inputs st ! j)"
          using st' st1 len j' nth_pulled_finished [of j "inputs st" i] by auto
        with inv j' show "current_bucket st' \<le> last_bucket_number st' ! j + 1"
          using st' st1 by (simp add: frontier_inv_def) }
      show "last_bucket_number st' ! j \<le> floor j"
        using inv j' st' st1 by (simp add: frontier_inv_def)
      fix c' b' assume "in_data (inputs st' ! j) = Some c'" "numbered_bucket c' = Some b'"
      then show "last_bucket_number st' ! j \<le> b'" "b' \<le> floor j"
        using inv j' st' st1 len by (simp_all add: frontier_inv_def nth_pulled_data split: if_splits)
    qed (use st' st1 len in simp_all)
    moreover have "advances st st'"
      using st' st1 len by (simp add: advances_def nth_pulled_finished)
    ultimately show ?thesis ..
  next
    case False
    with c info have nb: "numbered_bucket c = Some bucket" by simp
    from bound [OF nb] have b: "last_bucket_number st ! i \<le> bucket" "bucket \<le> floor i" by simp_all
    from False add c info i len st1
    have st': "inputs st' = inputs st1" "num_inputs st' = num_inputs st1"
      "last_bucket_number st' = (last_bucket_number st1)[i := bucket]"
      "current_bucket st' = current_bucket st1"
      "out_finished (outputs_front st') = out_finished (outputs_front st1)"
      by (auto simp: addChunk_def split: if_splits)
    have "frontier_inv floor st'"
      unfolding frontier_inv_def
    proof (intro conjI allI impI)
      fix j assume j: "j < num_inputs st'"
      then have j': "j < num_inputs st" using st' st1 by simp
      { assume "\<not> isFinished (inputs st' ! j)"
        then have "\<not> isFinished (inputs st ! j)"
          using st' st1 len j' nth_pulled_finished [of j "inputs st" i] by auto
        with inv j' have "current_bucket st \<le> last_bucket_number st ! j + 1"
          by (simp add: frontier_inv_def)
        then show "current_bucket st' \<le> last_bucket_number st' ! j + 1"
          using st' st1 len j' b by (cases "j = i") simp_all }
      show "last_bucket_number st' ! j \<le> floor j"
        using inv j' st' st1 len b by (cases "j = i") (simp_all add: frontier_inv_def)
      fix c' b' assume "in_data (inputs st' ! j) = Some c'" "numbered_bucket c' = Some b'"
      then show "last_bucket_number st' ! j \<le> b'" "b' \<le> floor j"
        using inv j' st' st1 len by (simp_all add: frontier_inv_def nth_pulled_data split: if_splits)
    qed (use st' st1 len in simp_all)
    moreover have "advances st st'"
      using st' st1 len b i
      by (auto simp: advances_def isFinished_pull_setNeeded nth_list_update)
    ultimately show ?thesis ..
  qed
qed

lemma setNeeded_port:
  assumes inv: "frontier_inv floor st" and i: "i < num_inputs st"
    and st1: "inputs st1 = (inputs st)[i := setNeeded (inputs st ! i)]"
      "num_inputs st1 = num_inputs st" "last_bucket_number st1 = last_bucket_number st"
      "current_bucket st1 = current_bucket st"
      "out_finished (outputs_front st1) = out_finished (outputs_front st)"
  shows "frontier_inv floor st1 \<and> advances st st1"
  using inv st1 by (simp add: frontier_inv_def advances_def nth_setNeeded)

lemma caught_up_advances: "caught_up D st \<Longrightarrow> advances st st' \<Longrightarrow> caught_up D st'"
  unfolding caught_up_def advances_def by (metis order_trans)

lemma caught_up_insert:
  "caught_up D st \<Longrightarrow> isFinished (inputs st ! i) \<or> \<not> need_input st i \<Longrightarrow> caught_up (insert i D) st"
  by (auto simp: caught_up_def need_input_def split: if_splits)

lemma readFromAllInputs_from_inv:
  assumes "frontier_inv floor st" and "\<forall>i \<in> set todo. i < num_inputs st"
    and "readFromAllInputs_from todo st = Inr st'"
  shows "frontier_inv floor st' \<and> advances st st'"
  using assms
proof (induction todo arbitrary: st)
  case Nil
  then show ?case by (auto simp: frontier_inv_def advances_def)
next
  case (Cons i rest)
  from Cons.prems have i: "i < num_inputs st" and rest: "\<forall>i \<in> set rest. i < num_inputs st"
    by simp_all
  show ?case
  proof (cases "isFinished (inputs st ! i) \<or> read_from_input st ! i")
    case True
    with Cons.prems(3) have "readFromAllInputs_from rest st = Inr st'"
      by (simp split: if_splits)
    from Cons.IH [OF Cons.prems(1) rest this] show ?thesis .
  next
    case False
    show ?thesis
    proof (cases "in_data (inputs st ! i)")
      case None
      with False Cons.prems(3)
      have "st' = st\<lparr>inputs := (inputs st)[i := setNeeded (inputs st ! i)]\<rparr>" by simp
      with setNeeded_port [OF Cons.prems(1) i, of st'] show ?thesis by simp
    next
      case (Some c)
      let ?st1 = "st\<lparr>inputs := (inputs st)[i := pull (setNeeded (inputs st ! i))],
                      read_from_input := (read_from_input st)[i := True]\<rparr>"
      from False Some Cons.prems(3) obtain st2 where
        add: "addChunk c i ?st1 = Inr st2" and go: "readFromAllInputs_from rest st2 = Inr st'"
        by (auto split: sum.splits)
      from addChunk_pulled [OF Cons.prems(1) i Some _ _ _ _ _ add]
      have st2: "frontier_inv floor st2" "advances st st2" by simp_all
      then have "\<forall>i \<in> set rest. i < num_inputs st2" using rest by (simp add: advances_def)
      from Cons.IH [OF st2(1) this go] st2(2) show ?thesis
        by (blast intro: advances_trans)
    qed
  qed
qed

lemma read_inputs_inv:
  assumes "frontier_inv floor st" and "\<forall>i \<in> set todo. i < num_inputs st"
    and "\<not> need_data \<longrightarrow> caught_up D st"
    and "read_inputs todo finished need_data st = Inr r"
  shows "case r of
           Returned st' s \<Rightarrow> frontier_inv floor st' \<and> advances st st'
         | Passed st' finished' need_data' \<Rightarrow>
             frontier_inv floor st' \<and> advances st st'
             \<and> (\<not> need_data' \<longrightarrow> caught_up (D \<union> set todo) st')"
  using assms
proof (induction todo arbitrary: st finished need_data D)
  case Nil
  then show ?case by (auto simp: advances_refl)
next
  case (Cons i rest)
  from Cons.prems have i: "i < num_inputs st" and rest: "\<forall>i \<in> set rest. i < num_inputs st"
    by simp_all
  show ?case
  proof (cases "isFinished (inputs st ! i)")
    case True
    with Cons.prems(4) have go: "read_inputs rest finished need_data st = Inr r" by simp
    from True Cons.prems(3) have "\<not> need_data \<longrightarrow> caught_up (insert i D) st"
      by (simp add: caught_up_insert)
    from Cons.IH [OF Cons.prems(1) rest this go] show ?thesis by (cases r) simp_all
  next
    case live: False
    show ?thesis
    proof (cases "need_input st i")
      case False
      with live Cons.prems(4) have go: "read_inputs rest False need_data st = Inr r" by simp
      from False Cons.prems(3) have "\<not> need_data \<longrightarrow> caught_up (insert i D) st"
        by (simp add: caught_up_insert)
      from Cons.IH [OF Cons.prems(1) rest this go] show ?thesis by (cases r) simp_all
    next
      case need: True
      show ?thesis
      proof (cases "in_data (inputs st ! i)")
        case None
        let ?st1 = "st\<lparr>inputs := (inputs st)[i := setNeeded (inputs st ! i)]\<rparr>"
        from live need None Cons.prems(4) have go: "read_inputs rest False True ?st1 = Inr r"
          by simp
        from setNeeded_port [OF Cons.prems(1) i, of ?st1]
        have st1: "frontier_inv floor ?st1" "advances st ?st1" by simp_all
        have "\<forall>i \<in> set rest. i < num_inputs ?st1" using rest by simp
        from Cons.IH [OF st1(1) this _ go, of "insert i D"] st1(2) show ?thesis
          by (auto split: pass.splits intro: advances_trans)
      next
        case (Some c)
        let ?st1 = "st\<lparr>inputs := (inputs st)[i := pull (setNeeded (inputs st ! i))]\<rparr>"
        from live need Some Cons.prems(4) obtain st2 where
          add: "addChunk c i ?st1 = Inr st2"
          and r: "r = Returned st2 Ready \<and> has_two_level st2 \<and> single_level_chunks st2 \<noteq> []
            \<or> \<not> (has_two_level st2 \<and> single_level_chunks st2 \<noteq> [])
              \<and> read_inputs rest False (need_data \<or> need_input st2 i) st2 = Inr r"
          by (auto split: sum.splits if_splits)
        from addChunk_pulled [OF Cons.prems(1) i Some _ _ _ _ _ add]
        have st2: "frontier_inv floor st2" "advances st st2" by simp_all
        from r show ?thesis
        proof
          assume "r = Returned st2 Ready \<and> has_two_level st2 \<and> single_level_chunks st2 \<noteq> []"
          with st2 show ?thesis by simp
        next
          assume "\<not> (has_two_level st2 \<and> single_level_chunks st2 \<noteq> [])
              \<and> read_inputs rest False (need_data \<or> need_input st2 i) st2 = Inr r"
          then have go: "read_inputs rest False (need_data \<or> need_input st2 i) st2 = Inr r" ..
          have "\<forall>i \<in> set rest. i < num_inputs st2" using rest st2(2) by (simp add: advances_def)
          moreover have "\<not> (need_data \<or> need_input st2 i) \<longrightarrow> caught_up (insert i D) st2"
            using Cons.prems(3) st2(2) by (auto intro: caught_up_insert caught_up_advances)
          ultimately show ?thesis
            using Cons.IH [OF st2(1) _ _ go, of "insert i D"] st2(2)
            by (auto split: pass.splits intro: advances_trans)
        qed
      qed
    qed
  qed
qed

subsection \<open>The loop over the buckets\<close>

lemma upt_below: "\<forall>i \<in> set [0..<n]. i < n"
  by simp

lemma read_next_bucket_inv:
  assumes "read_next_bucket st = Some r" and "frontier_inv floor st"
  shows "case r of Inl e \<Rightarrow> True
         | Inr (st', s) \<Rightarrow> frontier_inv floor st'
             \<and> out_finished (outputs_front st') = out_finished (outputs_front st)"
  using assms
proof (induction rule: read_next_bucket_induct)
  case (threw st e)
  then show ?case by simp
next
  case (returned st st' s)
  from read_inputs_inv [OF returned(2) upt_below _ returned(1), of "{}"]
  show ?case by (simp add: caught_up_def advances_def)
next
  case (break st st' need_data)
  from read_inputs_inv [OF break(2) upt_below _ break(1), of "{}"]
  have "frontier_inv floor st'" "advances st st'" by (simp_all add: caught_up_def)
  moreover have "frontier_inv floor (st'\<lparr>all_inputs_finished := True\<rparr>) = frontier_inv floor st'"
    by (rule frontier_inv_frame) simp_all
  ultimately show ?case by (simp add: advances_def)
next
  case (need_data st st')
  from read_inputs_inv [OF need_data(2) upt_below _ need_data(1), of "{}"]
  show ?case by (simp add: caught_up_def advances_def)
next
  case (next_bucket st st' r)
  from read_inputs_inv [OF next_bucket(4) upt_below _ next_bucket(1), of "{}"]
  have st': "frontier_inv floor st'" "advances st st'" "caught_up {0..<num_inputs st} st'"
    by (simp_all add: caught_up_def)
  then have "frontier_inv floor (st'\<lparr>current_bucket := current_bucket st' + 1\<rparr>)"
    by (auto simp: frontier_inv_def caught_up_def advances_def)
  from next_bucket(3) [OF this] st'(2) show ?case
    by (auto simp: advances_def split: sum.splits)
qed

subsection \<open>prepare keeps the invariant\<close>

lemma setNotNeeded_port:
  "isFinished (setNotNeeded p) = isFinished p" "in_data (setNotNeeded p) = in_data p"
  by (simp_all add: isFinished_def setNotNeeded_def)

lemma prepare_begin_goes_on:
  assumes "prepare_begin st = Inr st1" and "run_inv floor st"
  shows "frontier_inv floor st1 \<and> \<not> out_finished (outputs_front st1)"
proof -
  from assms(1) have out: "\<not> out_finished (outputs_front st)"
    by (auto simp: prepare_begin_def split: if_splits)
  with assms(2) have inv: "frontier_inv floor st" by (simp add: run_inv_def)
  show ?thesis
  proof (cases "read_from_all_inputs st")
    case True
    with assms(1) out have "st1 = st" by (auto simp: prepare_begin_def split: if_splits)
    with inv out show ?thesis by simp
  next
    case False
    with assms(1) out have "readFromAllInputs_from [0..<num_inputs st] st = Inr st1"
      by (auto simp: prepare_begin_def readFromAllInputs_def split: if_splits sum.splits)
    from readFromAllInputs_from_inv [OF inv upt_below this] out show ?thesis
      by (simp add: advances_def)
  qed
qed

lemma prepare_begin_returns:
  assumes "prepare_begin st = Inl (Inr (st', s))" and "run_inv floor st"
  shows "run_inv floor st'"
proof (cases "out_finished (outputs_front st)")
  case True
  with assms(1) show ?thesis by (auto simp: prepare_begin_def run_inv_def)
next
  case out: False
  with assms(2) have inv: "frontier_inv floor st" by (simp add: run_inv_def)
  obtain st1 where st1: "(if \<not> read_from_all_inputs st then readFromAllInputs st else Inr st) = Inr st1"
    using assms(1) out by (auto simp: prepare_begin_def split: sum.splits)
  have inv1: "frontier_inv floor st1"
  proof (cases "read_from_all_inputs st")
    case True
    with st1 inv show ?thesis by simp
  next
    case False
    with st1 have "readFromAllInputs_from [0..<num_inputs st] st = Inr st1"
      by (simp add: readFromAllInputs_def)
    from readFromAllInputs_from_inv [OF inv upt_below this] show ?thesis by simp
  qed
  from assms(1) out st1
  have "st' = st1 \<or> st' = st1\<lparr>inputs := map setNotNeeded (inputs st1)\<rparr>"
    by (auto simp: prepare_begin_def split: if_splits)
  then show ?thesis
  proof
    assume "st' = st1"
    with inv1 show ?thesis by (simp add: run_inv_def)
  next
    assume "st' = st1\<lparr>inputs := map setNotNeeded (inputs st1)\<rparr>"
    with inv1 show ?thesis
      by (simp add: run_inv_def frontier_inv_def setNotNeeded_port)
  qed
qed

lemma tryPushTwoLevelData_inv:
  assumes "tryPushTwoLevelData st = Some (st', b)"
  shows "frontier_inv floor st' = frontier_inv floor st"
  using tryPushTwoLevelData_frame [OF assms] by (intro frontier_inv_frame) simp_all

lemma tryPushSingleLevelData_inv:
  "tryPushSingleLevelData st = (st', b) \<Longrightarrow> frontier_inv floor st' = frontier_inv floor st"
  by (rule frontier_inv_frame) (auto simp: tryPushSingleLevelData_def pushData_def split: if_splits)

lemma tryPushOverflowData_inv:
  "tryPushOverflowData st = (st', b) \<Longrightarrow> frontier_inv floor st' = frontier_inv floor st"
  by (rule frontier_inv_frame) (auto simp: tryPushOverflowData_def pushData_def split: if_splits)

lemma finish_inv:
  "frontier_inv floor (st\<lparr>outputs_front := p\<rparr>) = frontier_inv floor st"
  by (rule frontier_inv_frame) simp_all

lemma prepare_push_again_inv:
  assumes "prepare_push_again st pushed = Some (Inr (st', s))" and "frontier_inv floor st"
  shows "frontier_inv floor st'"
proof -
  from assms(1) obtain st1 pushed1 st2 pushed2 where
    one: "(if \<not> pushed then (if has_two_level st then tryPushTwoLevelData st
            else Some (tryPushSingleLevelData st)) else Some (st, pushed)) = Some (st1, pushed1)"
    and two: "(if \<not> pushed1 then tryPushOverflowData st1 else (st1, pushed1)) = (st2, pushed2)"
    and three: "st' = st2 \<or> st' = st2\<lparr>outputs_front := finish (outputs_front st2)\<rparr>"
    by (auto simp: prepare_push_again_def split: option.splits prod.splits if_splits)
  from one assms(2) have "frontier_inv floor st1"
    by (auto simp: tryPushTwoLevelData_inv tryPushSingleLevelData_inv split: if_splits)
  with two have "frontier_inv floor st2"
    by (auto simp: tryPushOverflowData_inv split: if_splits)
  with three show ?thesis
    by (auto simp: finish_inv)
qed

lemma prepare_output_inv:
  assumes "prepare_output st = Some (Inr (st', s))" and "frontier_inv floor st"
  shows "frontier_inv floor st'"
proof -
  from assms(1) obtain st1 pushed r where
    one: "(if has_two_level st then tryPushTwoLevelData st else Some (st, False)) = Some (st1, pushed)"
    and two: "read_next_bucket st1 = Some r"
    and three: "(case r of Inl e \<Rightarrow> Some (Inl e)
        | Inr (st2, Some s) \<Rightarrow> Some (Inr (st2, s))
        | Inr (st2, None) \<Rightarrow> prepare_push_again st2 pushed) = Some (Inr (st', s))"
    by (auto simp: prepare_output_def split: option.splits prod.splits)
  from one assms(2) have "frontier_inv floor st1"
    by (auto simp: tryPushTwoLevelData_inv split: if_splits)
  from read_next_bucket_inv [OF two this] three show ?thesis
    by (auto split: sum.splits prod.splits option.splits dest: prepare_push_again_inv)
qed

lemma prepare_inv:
  assumes "prepare st = Some (Inr (st', s))" and "run_inv floor st"
  shows "run_inv floor st'"
proof (cases "prepare_begin st")
  case (Inl returned)
  with assms(1) have "prepare_begin st = Inl (Inr (st', s))" by (simp add: prepare_def)
  from prepare_begin_returns [OF this assms(2)] show ?thesis .
next
  case (Inr st1)
  with assms(1) have "prepare_output st1 = Some (Inr (st', s))" by (simp add: prepare_def)
  from prepare_output_inv [OF this] prepare_begin_goes_on [OF Inr assms(2)]
  show ?thesis by (simp add: run_inv_def)
qed

subsection \<open>Every event of a run keeps the invariant\<close>

lemma numbered_bucket_nonneg: "numbered_bucket c = Some bucket \<Longrightarrow> 0 \<le> bucket"
proof -
  assume n: "numbered_bucket c = Some bucket"
  obtain cols info where "c = Chunk cols info" by (cases c)
  with n show ?thesis by (cases info) (auto split: if_splits)
qed

lemma producer_buckets_nonneg: "bucket \<in> set (producer_buckets i evs) \<Longrightarrow> 0 \<le> bucket"
proof (induction evs)
  case Nil
  then show ?case by simp
next
  case (Cons ev evs)
  then show ?case
    by (cases ev) (auto split: if_splits option.splits dest: numbered_bucket_nonneg)
qed

lemma fold_emplace_frame:
  "inputs (fold (\<lambda>(bucket, cols) s. s\<lparr>chunks := emplace_back_at bucket (Chunk cols NoInfo) (chunks s)\<rparr>) bs s) = inputs s
   \<and> num_inputs (fold (\<lambda>(bucket, cols) s. s\<lparr>chunks := emplace_back_at bucket (Chunk cols NoInfo) (chunks s)\<rparr>) bs s) = num_inputs s
   \<and> last_bucket_number (fold (\<lambda>(bucket, cols) s. s\<lparr>chunks := emplace_back_at bucket (Chunk cols NoInfo) (chunks s)\<rparr>) bs s) = last_bucket_number s
   \<and> current_bucket (fold (\<lambda>(bucket, cols) s. s\<lparr>chunks := emplace_back_at bucket (Chunk cols NoInfo) (chunks s)\<rparr>) bs s) = current_bucket s
   \<and> outputs_front (fold (\<lambda>(bucket, cols) s. s\<lparr>chunks := emplace_back_at bucket (Chunk cols NoInfo) (chunks s)\<rparr>) bs s) = outputs_front s"
  by (induction bs arbitrary: s) (auto split: prod.splits)

lemma work_frame:
  "inputs (work conv st) = inputs st \<and> num_inputs (work conv st) = num_inputs st
   \<and> last_bucket_number (work conv st) = last_bucket_number st
   \<and> current_bucket (work conv st) = current_bucket st
   \<and> outputs_front (work conv st) = outputs_front st"
  by (simp add: work_def fold_emplace_frame)

lemma exec_inv:
  assumes inv: "run_inv floor st"
    and mono: "\<forall>i. sorted (floor i # producer_buckets i (ev # evs))"
    and ex: "exec conv ev (st, trace) = Some (Inr (st', trace'))"
  shows "\<exists>floor'. run_inv floor' st' \<and> (\<forall>i. sorted (floor' i # producer_buckets i evs))"
proof (cases ev)
  case (Feed i c)
  with ex have i: "i < length (inputs st)" and op: "\<not> in_finished (inputs st ! i)"
    and st': "st' = st\<lparr>inputs := (inputs st)[i := (inputs st ! i)\<lparr>in_data := Some c\<rparr>]\<rparr>"
    by (auto simp: exec_def split: if_splits)
  define floor' where "floor' = (case numbered_bucket c of None \<Rightarrow> floor | Some bucket \<Rightarrow> floor(i := bucket))"
  have le: "\<And>j. floor j \<le> floor' j"
    using mono Feed by (auto simp: floor'_def split: option.splits)
  have own: "\<And>bucket. numbered_bucket c = Some bucket \<Longrightarrow> floor i \<le> bucket \<and> floor' i = bucket"
    using mono Feed by (auto simp: floor'_def)
  have "\<forall>j. sorted (floor' j # producer_buckets j evs)"
  proof
    fix j
    from mono have "sorted (floor j # producer_buckets j (ev # evs))" ..
    with Feed show "sorted (floor' j # producer_buckets j evs)"
      by (auto simp: floor'_def split: option.splits if_splits)
  qed
  moreover have "run_inv floor' st'"
  proof (cases "out_finished (outputs_front st)")
    case True
    with st' show ?thesis by (simp add: run_inv_def)
  next
    case False
    with inv have f: "frontier_inv floor st" by (simp add: run_inv_def)
    then have len: "length (inputs st) = num_inputs st" by (simp add: frontier_inv_def)
    have "frontier_inv floor' st'"
      unfolding frontier_inv_def
    proof (intro conjI allI impI)
      fix j assume "j < num_inputs st'"
      then have j: "j < num_inputs st" using st' by simp
      { assume "\<not> isFinished (inputs st' ! j)"
        have "\<not> isFinished (inputs st ! j)"
        proof (cases "j = i")
          case True
          with op show ?thesis by (simp add: isFinished_def)
        next
          case False
          with \<open>\<not> isFinished (inputs st' ! j)\<close> st' show ?thesis by simp
        qed
        with f j show "current_bucket st' \<le> last_bucket_number st' ! j + 1"
          using st' by (simp add: frontier_inv_def) }
      from f j have "last_bucket_number st ! j \<le> floor j" by (simp add: frontier_inv_def)
      with le [of j] show "last_bucket_number st' ! j \<le> floor' j" using st' by simp
      fix c' b' assume d: "in_data (inputs st' ! j) = Some c'" and n: "numbered_bucket c' = Some b'"
      show "last_bucket_number st' ! j \<le> b'"
      proof (cases "j = i")
        case True
        with d st' i have "c' = c" by simp
        with own n f j True show ?thesis using st' by (auto simp: frontier_inv_def)
      next
        case False
        with d n f j st' show ?thesis by (simp add: frontier_inv_def)
      qed
      show "b' \<le> floor' j"
      proof (cases "j = i")
        case True
        with d st' i have "c' = c" by simp
        with own n True show ?thesis by simp
      next
        case False
        with d n f j st' have "b' \<le> floor j" by (simp add: frontier_inv_def)
        with le [of j] show ?thesis by simp
      qed
    qed (use st' f in \<open>simp_all add: frontier_inv_def\<close>)
    then show ?thesis by (simp add: run_inv_def)
  qed
  ultimately show ?thesis by blast
next
  case (Close i)
  with ex have i: "i < length (inputs st)"
    and st': "st' = st\<lparr>inputs := (inputs st)[i := (inputs st ! i)\<lparr>in_finished := True\<rparr>]\<rparr>"
    by (auto simp: exec_def split: if_splits)
  have port: "\<And>j. j < length (inputs st) \<Longrightarrow>
      in_data (inputs st' ! j) = in_data (inputs st ! j)
      \<and> (isFinished (inputs st ! j) \<longrightarrow> isFinished (inputs st' ! j))"
    subgoal for j using st' by (cases "j = i") (simp_all add: isFinished_def)
    done
  have "run_inv floor st'"
  proof (cases "out_finished (outputs_front st)")
    case True
    with st' show ?thesis by (simp add: run_inv_def)
  next
    case False
    with inv have f: "frontier_inv floor st" by (simp add: run_inv_def)
    then have "frontier_inv floor st'"
      using port st' unfolding frontier_inv_def by (auto simp del: nth_list_update_eq)
    then show ?thesis by (simp add: run_inv_def)
  qed
  with mono Close show ?thesis by auto
next
  case Drain
  with ex have "st' = st\<lparr>outputs_front := (outputs_front st)\<lparr>out_needed := True, out_has_data := False\<rparr>\<rparr>"
    by (auto simp: exec_def)
  with inv have "run_inv floor st'" by (auto simp: run_inv_def finish_inv)
  with mono Drain show ?thesis by auto
next
  case Cancel
  with ex have "run_inv floor st'" by (auto simp: exec_def run_inv_def)
  with mono Cancel show ?thesis by auto
next
  case Prepare
  with ex obtain s where "prepare st = Some (Inr (st', s))"
    by (auto simp: exec_def split: option.splits sum.splits)
  from prepare_inv [OF this inv] mono Prepare show ?thesis by auto
next
  case Work
  with ex have st': "st' = work conv st" by (auto simp: exec_def split: if_splits)
  have "frontier_inv floor st' = frontier_inv floor st"
    unfolding st' using work_frame [of conv st] by (intro frontier_inv_frame) simp_all
  with inv st' work_frame [of conv st] have "run_inv floor st'" by (auto simp: run_inv_def)
  with mono Work show ?thesis by auto
qed

lemma run_keeps_inv:
  assumes "run_inv floor st" and "\<forall>i. sorted (floor i # producer_buckets i evs)"
    and "run conv evs (st, trace) = Some (Inr (st', trace'))"
  shows "\<exists>floor'. run_inv floor' st'"
  using assms
proof (induction evs arbitrary: floor st trace)
  case Nil
  then show ?case by auto
next
  case (Cons ev evs)
  from Cons.prems(3) obtain st1 trace1 where
    one: "exec conv ev (st, trace) = Some (Inr (st1, trace1))"
    and rest: "run conv evs (st1, trace1) = Some (Inr (st', trace'))"
    by (auto split: option.splits sum.splits)
  from exec_inv [OF Cons.prems(1,2) one] obtain floor' where
    "run_inv floor' st1" "\<forall>i. sorted (floor' i # producer_buckets i evs)" by blast
  from Cons.IH [OF this rest] show ?case .
qed

lemma init_inv: "frontier_inv (\<lambda>i. - 1) (init n several)"
  by (simp add: frontier_inv_def init_def new_input_def)

subsection \<open>The claim\<close>

lemma frontier_inv_at_call:
  assumes "run_inv floor st" and "calls_tryPushTwoLevelData st site"
  shows "frontier_inv floor site"
  using assms(2)
proof cases
  case line_146
  from prepare_begin_goes_on [OF line_146(1) assms(1)] show ?thesis by simp
next
  case (line_205 st1 st2)
  from prepare_begin_goes_on [OF line_205(1) assms(1)] have "frontier_inv floor st1" by simp
  with line_205(2) have "frontier_inv floor st2"
    by (auto simp: tryPushTwoLevelData_inv split: if_splits)
  from read_next_bucket_inv [OF line_205(3) this] show ?thesis by simp
qed

text \<open>
  C6 (no premature release). Take any run from the initial state in which the numbered
  buckets delivered by each producer are non-decreasing, and any call of \<open>prepare\<close> in the
  state \<open>st\<close> the run has reached (a call inside the run is a call after a prefix of it,
  and a prefix is such a run). Whenever that \<open>prepare\<close> calls \<open>tryPushTwoLevelData\<close>, in
  state \<open>site\<close>, and the call releases a bucket, the released bucket is where it leaves
  \<open>next_bucket_to_push\<close>: the group pushed holds the chunks filed under that bucket. Every
  input that is not finished at that moment has a last bucket that is not below the released
  one. So a bucket is released only when every live producer has reached it, or none is live.
\<close>

theorem no_premature_release:
  assumes mono: "\<forall>i. sorted (producer_buckets i evs)"
    and run: "run conv evs (init n several, []) = Some (Inr (st, trace))"
    and call: "calls_tryPushTwoLevelData st site"
    and released: "tryPushTwoLevelData site = Some (st', True)"
    and live: "i < num_inputs site" "\<not> isFinished (inputs site ! i)"
  shows "next_bucket_to_push st' \<le> last_bucket_number site ! i
    \<and> (\<exists>cur_chunks. map_of (chunks site) (next_bucket_to_push st') = Some cur_chunks
          \<and> out_stream (outputs_front st')
              = out_stream (outputs_front site)
                @ [Chunk 0 (ChunksToMerge cur_chunks (current_bucket site) False)])"
proof -
  have "\<forall>i. sorted ((- 1) # producer_buckets i evs)"
    using mono producer_buckets_nonneg by fastforce
  moreover have "run_inv (\<lambda>i. - 1) (init n several)"
    using init_inv by (simp add: run_inv_def)
  ultimately obtain floor where "run_inv floor st"
    using run_keeps_inv [OF _ _ run, of "\<lambda>i. - 1"] by blast
  from frontier_inv_at_call [OF this call] live
  have "current_bucket site \<le> last_bucket_number site ! i + 1"
    by (simp add: frontier_inv_def)
  with tryPushTwoLevelData_release [OF released] show ?thesis by auto
qed

lemma witness_run:
  "run (\<lambda>cols. [])
     [Drain, Feed 0 (Chunk 1 (AggregatedChunkInfo 0 False)), Prepare,
      Feed 0 (Chunk 2 (AggregatedChunkInfo 1 False))]
     (init 1 False, [])
   = Some (Inr (\<lparr>inputs = [\<lparr>in_finished = False, in_needed = True,
                              in_data = Some (Chunk 2 (AggregatedChunkInfo 1 False))\<rparr>],
        outputs_front = \<lparr>out_finished = False, out_needed = True, out_has_data = False, out_stream = []\<rparr>,
        num_inputs = 1, last_bucket_number = [0], read_from_input = [True],
        read_from_all_inputs = True, has_two_level = True, all_inputs_finished = False,
        expect_several_chunks_for_single_bucket_per_source = False,
        current_bucket = 1, next_bucket_to_push = 0,
        chunks = [(0, [Chunk 1 (AggregatedChunkInfo 0 False)])],
        single_level_chunks = [], overflow_chunks = []\<rparr>, [NeedData]))"
  by code_simp

theorem no_premature_release_witness:
  "(\<forall>i. sorted (producer_buckets i
        [Drain, Feed 0 (Chunk 1 (AggregatedChunkInfo 0 False)), Prepare,
         Feed 0 (Chunk 2 (AggregatedChunkInfo 1 False))]))
   \<and> (\<exists>st trace st'.
        run (\<lambda>cols. [])
          [Drain, Feed 0 (Chunk 1 (AggregatedChunkInfo 0 False)), Prepare,
           Feed 0 (Chunk 2 (AggregatedChunkInfo 1 False))]
          (init 1 False, []) = Some (Inr (st, trace))
        \<and> calls_tryPushTwoLevelData st st
        \<and> tryPushTwoLevelData st = Some (st', True)
        \<and> 0 < num_inputs st \<and> \<not> isFinished (inputs st ! 0)
        \<and> next_bucket_to_push st' = 0 \<and> last_bucket_number st ! 0 = 0
        \<and> next_bucket_to_push st' \<le> last_bucket_number st ! 0)"
proof -
  let ?evs = "[Drain, Feed 0 (Chunk 1 (AggregatedChunkInfo 0 False)), Prepare,
      Feed 0 (Chunk 2 (AggregatedChunkInfo 1 False))]"
  let ?st = "\<lparr>inputs = [\<lparr>in_finished = False, in_needed = True,
                              in_data = Some (Chunk 2 (AggregatedChunkInfo 1 False))\<rparr>],
        outputs_front = \<lparr>out_finished = False, out_needed = True, out_has_data = False, out_stream = []\<rparr>,
        num_inputs = 1, last_bucket_number = [0], read_from_input = [True],
        read_from_all_inputs = True, has_two_level = True, all_inputs_finished = False,
        expect_several_chunks_for_single_bucket_per_source = False,
        current_bucket = 1, next_bucket_to_push = 0,
        chunks = [(0, [Chunk 1 (AggregatedChunkInfo 0 False)])],
        single_level_chunks = [], overflow_chunks = []\<rparr>"
  let ?st' = "(pushData [Chunk 1 (AggregatedChunkInfo 0 False)] 1 False ?st)\<lparr>chunks := []\<rparr>"
  have mono: "\<forall>i. sorted (producer_buckets i ?evs)" by simp
  have run: "run (\<lambda>cols. []) ?evs (init 1 False, []) = Some (Inr (?st, [NeedData]))"
    by (rule witness_run)
  have "prepare_begin ?st = Inr ?st"
    by (simp add: prepare_begin_def canPush_def)
  then have call: "calls_tryPushTwoLevelData ?st ?st"
    by (rule calls_tryPushTwoLevelData.line_146) simp
  have released: "tryPushTwoLevelData ?st = Some (?st', True)"
    by (subst tryPushTwoLevelData.simps) simp
  have live: "0 < num_inputs ?st" "\<not> isFinished (inputs ?st ! 0)"
    by (simp_all add: isFinished_def)
  have "next_bucket_to_push ?st' \<le> last_bucket_number ?st ! 0"
    using no_premature_release [OF mono run call released live] by simp
  moreover have "next_bucket_to_push ?st' = 0" "last_bucket_number ?st ! 0 = 0"
    by (simp_all add: pushData_def)
  ultimately show ?thesis
    using mono run call released live by blast
qed

end
